theory Spec2Isabelle
  imports Complex_Main "HOL-Library.AList"
begin

section \<open>Values, dictionaries and errors\<close>

text \<open>
  Steps and recipes are Python dictionaries holding JSON values: they are built from
  what the page script sends (recorder.py) and read back from recipes.json (runner.py).
  A dictionary keeps its keys in insertion order, and assigning to an existing key keeps
  the key's position, which is what \<open>AList.update\<close> does on an association list.
  Numbers are the integers; floats and booleans are not modelled.
\<close>

datatype json =
    JNull
  | JNum int
  | JStr string
  | JArr "json list"
  | JObj "(string \<times> json) list"

type_synonym pydict = "(string \<times> json) list"

type_synonym step = pydict

datatype error =
    KeyError string
  | TypeError string
  | AttributeError string
  | SyntaxError string
  | DriverError string

text \<open>\<open>d[k]\<close>: a missing key raises KeyError.\<close>

definition getitem :: "pydict \<Rightarrow> string \<Rightarrow> error + json" where
  "getitem d k = (case map_of d k of None \<Rightarrow> Inl (KeyError k) | Some v \<Rightarrow> Inr v)"

text \<open>Lists and dictionaries are unhashable: using one as a dictionary key raises TypeError.\<close>

fun hashable :: "json \<Rightarrow> bool" where
  "hashable (JArr _) = False"
| "hashable (JObj _) = False"
| "hashable _ = True"

text \<open>\<open>{**base, **data}\<close>: the keys of \<open>data\<close> are assigned in order onto \<open>base\<close>.\<close>

definition dict_merge :: "pydict \<Rightarrow> pydict \<Rightarrow> pydict" where
  "dict_merge base data = fold (\<lambda>(k, v) d. AList.update k v d) data base"

section \<open>The batch pass: \<open>_collapse_fills\<close>\<close>

text \<open>
  The loop of \<open>_collapse_fills\<close>, with its two local variables \<open>collapsed\<close> and
  \<open>last_fills\<close> as accumulators. \<open>last_fills.values()\<close> is \<open>map snd\<close> of the
  association list.
\<close>

fun collapse_loop :: "step list \<Rightarrow> step list \<Rightarrow> (json \<times> step) list \<Rightarrow> error + step list" where
  "collapse_loop [] collapsed last_fills = Inr (collapsed @ map snd last_fills)"
| "collapse_loop (step # rest) collapsed last_fills =
     (case getitem step ''action'' of
        Inl e \<Rightarrow> Inl e
      | Inr a \<Rightarrow>
          if a = JStr ''fill'' then
            (case getitem step ''selector'' of
               Inl e \<Rightarrow> Inl e
             | Inr sel \<Rightarrow>
                 if hashable sel
                 then collapse_loop rest collapsed (AList.update sel step last_fills)
                 else Inl (TypeError ''unhashable type''))
          else collapse_loop rest (collapsed @ map snd last_fills @ [step]) [])"

definition collapse_fills :: "step list \<Rightarrow> error + step list" where
  "collapse_fills sts = collapse_loop sts [] []"

section \<open>The live pass: \<open>_add_step\<close> and the flush of \<open>_save_recipe\<close>\<close>

record recorder =
  steps :: "step list"
  recipe_name :: string
  description :: string
  last_fill_for_selector :: "(json \<times> step) list"

definition mk_step :: "string \<Rightarrow> string \<Rightarrow> pydict \<Rightarrow> step" where
  "mk_step action now data =
     dict_merge [(''action'', JStr action), (''timestamp'', JStr now)] data"

text \<open>
  \<open>_add_step(action, data)\<close>; \<open>now\<close> is what \<open>datetime.now().isoformat()\<close> returns
  at the call. The method mutates the recorder and may raise after having done so (the
  console line of the fill branch reads \<open>data['value']\<close>), so it returns the raised
  error, if any, beside the recorder it leaves behind.
\<close>

definition add_step :: "string \<Rightarrow> string \<Rightarrow> pydict \<Rightarrow> recorder \<Rightarrow> error option \<times> recorder" where
  "add_step action now data r =
     (let step = mk_step action now data in
      if action = ''fill'' then
        (case getitem data ''selector'' of
           Inl e \<Rightarrow> (Some e, r)
         | Inr selector \<Rightarrow>
             if hashable selector then
               (let r' = r\<lparr>last_fill_for_selector :=
                            AList.update selector step (last_fill_for_selector r)\<rparr>
                in case getitem data ''value'' of
                     Inl e \<Rightarrow> (Some e, r')
                   | Inr _ \<Rightarrow> (None, r'))
             else (Some (TypeError ''unhashable type''), r))
      else (None, r\<lparr>steps := steps r @ map snd (last_fill_for_selector r) @ [step],
                     last_fill_for_selector := []\<rparr>))"

text \<open>
  The events the recorder receives, one constructor per call site of \<open>_add_step\<close>:
  the exposed functions \<open>recordClick\<close> and \<open>recordInput\<close> (the selector is what
  \<open>getUniqueSelector\<close> returned, a string or null; the text or value is whatever the
  page script read), the main frame's navigations together with the start URL, and the
  \<open>:prompt\<close> command.
\<close>

datatype event =
    RecordClick "string option" json
  | RecordInput "string option" json
  | Navigated string
  | PromptCmd string

fun selector_json :: "string option \<Rightarrow> json" where
  "selector_json None = JNull"
| "selector_json (Some s) = JStr s"

fun call_args :: "event \<Rightarrow> string \<times> pydict" where
  "call_args (RecordClick selector text) =
     (''click'', [(''selector'', selector_json selector), (''text'', text)])"
| "call_args (RecordInput selector v) =
     (''fill'', [(''selector'', selector_json selector), (''value'', v)])"
| "call_args (Navigated url) = (''navigate'', [(''url'', JStr url)])"
| "call_args (PromptCmd message) = (''prompt'', [(''message'', JStr message)])"

definition deliver :: "string \<times> event \<Rightarrow> recorder \<Rightarrow> error option \<times> recorder" where
  "deliver te r = (case call_args (snd te) of (action, data) \<Rightarrow> add_step action (fst te) data r)"

text \<open>
  The events arrive one at a time, each with the time of its arrival. An error raised in
  a callback does not end the recording: the next event finds the recorder as the failed
  call left it.
\<close>

fun record_events :: "(string \<times> event) list \<Rightarrow> recorder \<Rightarrow> recorder" where
  "record_events [] r = r"
| "record_events (te # tes) r = record_events tes (snd (deliver te r))"

definition start_recording :: "string \<Rightarrow> string \<Rightarrow> recorder" where
  "start_recording name descr =
     \<lparr>steps = [], recipe_name = name, description = descr, last_fill_for_selector = []\<rparr>"

text \<open>The first lines of \<open>_save_recipe\<close>: the pending fills are appended to the steps.\<close>

definition flush_fills :: "recorder \<Rightarrow> recorder" where
  "flush_fills r = r\<lparr>steps := steps r @ map snd (last_fill_for_selector r),
                     last_fill_for_selector := []\<rparr>"

definition live_steps :: "(string \<times> event) list \<Rightarrow> step list" where
  "live_steps tes = steps (flush_fills (record_events tes (start_recording [] [])))"

text \<open>The raw stream of steps: the step dictionary \<open>_add_step\<close> builds for each event.\<close>

definition raw_step :: "string \<times> event \<Rightarrow> step" where
  "raw_step te = (case call_args (snd te) of (action, data) \<Rightarrow> mk_step action (fst te) data)"

definition raw_steps :: "(string \<times> event) list \<Rightarrow> step list" where
  "raw_steps tes = map raw_step tes"

section \<open>Placeholder extraction: \<open>_extract_placeholders\<close>\<close>

text \<open>
  \<open>re.findall(r'\{([^}]+)\}', value)\<close>: the matches are found from left to right and do
  not overlap. At an opening brace the group takes the longest run of characters other than
  the closing brace; the match succeeds when that run is not empty and a closing brace
  follows it, and the scan resumes after that brace. Otherwise the scan moves one character
  on.
\<close>

function findall_placeholders :: "string \<Rightarrow> string list" where
  "findall_placeholders [] = []"
| "findall_placeholders (c # cs) =
     (if c = CHR ''{'' then
        (let tok = takeWhile (\<lambda>x. x \<noteq> CHR ''}'') cs;
             rest = dropWhile (\<lambda>x. x \<noteq> CHR ''}'') cs
         in if tok \<noteq> [] \<and> rest \<noteq> [] then tok # findall_placeholders (tl rest)
            else findall_placeholders cs)
      else findall_placeholders cs)"
  by pat_completeness auto
termination
proof (relation "measure length")
  fix c :: char and cs :: string and x xa
  assume "xa = dropWhile (\<lambda>x. x \<noteq> CHR ''}'') cs"
  then have "length (tl xa) \<le> length cs"
    using length_dropWhile_le [of "\<lambda>x. x \<noteq> CHR ''}''" cs] by simp
  then show "(tl xa, c # cs) \<in> measure length" by simp
qed simp_all

text \<open>
  \<open>placeholders\<close> is a Python set, modelled as a list without duplicates;
  \<open>placeholders.update(matches)\<close> adds the matches that are not in it yet. The order in
  which \<open>list(placeholders)\<close> enumerates the set is not fixed by the source, so nothing
  below depends on the order of the list.
\<close>

definition set_update :: "string list \<Rightarrow> string list \<Rightarrow> string list" where
  "set_update placeholders matches =
     fold (\<lambda>m ps. if m \<in> set ps then ps else ps @ [m]) matches placeholders"

fun extract_loop :: "step list \<Rightarrow> string list \<Rightarrow> string list" where
  "extract_loop [] placeholders = placeholders"
| "extract_loop (step # rest) placeholders =
     (case map_of step ''value'' of
        Some (JStr v) \<Rightarrow> extract_loop rest (set_update placeholders (findall_placeholders v))
      | _ \<Rightarrow> extract_loop rest placeholders)"

definition extract_placeholders :: "step list \<Rightarrow> string list" where
  "extract_placeholders sts = extract_loop sts []"

section \<open>Replay: \<open>RecipeRunnerUI.run_recipe\<close>\<close>

text \<open>
  The browser driver is outside the repository: it is a parameter, a function from a call
  and the state of the page to the outcome of the call (\<open>Some msg\<close> when the call raises)
  and the next state. What \<open>run_recipe\<close> does to the outside world is recorded in a trace:
  the lines it logs, the driver calls it makes, its sleeps (in seconds) and the closing of
  the browser.
\<close>

datatype call = Goto json | ClickCall json | FillCall json json

datatype log_line =
    Running json
  | StepLine nat nat json
  | UnknownAction json
  | Finished
  | ErrorLine error

datatype effect = Launch | Log log_line | Call call | Sleep rat | Close

type_synonym 'p driver = "call \<Rightarrow> 'p \<Rightarrow> string option \<times> 'p"

record 'p session =
  page :: 'p
  trace :: "effect list"

definition emit :: "effect \<Rightarrow> 'p session \<Rightarrow> 'p session" where
  "emit e s = s\<lparr>trace := trace s @ [e]\<rparr>"

definition call_driver :: "'p driver \<Rightarrow> call \<Rightarrow> 'p session \<Rightarrow> error option \<times> 'p session" where
  "call_driver drv c s =
     (case drv c (page s) of
        (None, p') \<Rightarrow> (None, \<lparr>page = p', trace = trace s @ [Call c]\<rparr>)
      | (Some msg, p') \<Rightarrow> (Some (DriverError msg), \<lparr>page = p', trace = trace s @ [Call c]\<rparr>))"

text \<open>
  Steps and recipes come from recipes.json, so a step may be any JSON value: \<open>step[k]\<close>
  raises TypeError unless the step is a dictionary, and the loop iterates over whatever
  \<open>recipe["steps"]\<close> is.
\<close>

definition subscript :: "json \<Rightarrow> string \<Rightarrow> error + json" where
  "subscript v k =
     (case v of JObj d \<Rightarrow> getitem d k | _ \<Rightarrow> Inl (TypeError ''not subscriptable by a string''))"

definition iterate :: "json \<Rightarrow> error + json list" where
  "iterate v =
     (case v of
        JArr xs \<Rightarrow> Inr xs
      | JStr s \<Rightarrow> Inr (map (\<lambda>c. JStr [c]) s)
      | JObj d \<Rightarrow> Inr (map (\<lambda>kv. JStr (fst kv)) d)
      | _ \<Rightarrow> Inl (TypeError ''not iterable''))"

text \<open>
  \<open>inputs.get(step["selector"], step["value"])\<close>: both subscripts are evaluated before
  the lookup, which raises TypeError on an unhashable selector.
\<close>

definition effective_value :: "(json \<rightharpoonup> json) \<Rightarrow> json \<Rightarrow> error + json" where
  "effective_value inputs step =
     (case subscript step ''selector'' of
        Inl e \<Rightarrow> Inl e
      | Inr selector \<Rightarrow>
          (case subscript step ''value'' of
             Inl e \<Rightarrow> Inl e
           | Inr recorded \<Rightarrow>
               if hashable selector
               then Inr (case inputs selector of Some v \<Rightarrow> v | None \<Rightarrow> recorded)
               else Inl (TypeError ''unhashable type'')))"

text \<open>\<open>step.get("delay", 1000) / 1000\<close>, the argument of \<open>asyncio.sleep\<close>.\<close>

definition wait_seconds :: "json \<Rightarrow> error + rat" where
  "wait_seconds step =
     (case step of
        JObj d \<Rightarrow>
          (case (case map_of d ''delay'' of Some v \<Rightarrow> v | None \<Rightarrow> JNum 1000) of
             JNum n \<Rightarrow> Inr (of_int n / 1000)
           | _ \<Rightarrow> Inl (TypeError ''unsupported operand type(s) for /''))
      | _ \<Rightarrow> Inl (AttributeError ''get''))"

text \<open>The body of the loop for the step at index \<open>i\<close> of \<open>n_steps\<close> steps.\<close>

definition exec_step ::
  "'p driver \<Rightarrow> (json \<rightharpoonup> json) \<Rightarrow> nat \<Rightarrow> nat \<Rightarrow> json \<Rightarrow> 'p session \<Rightarrow> error option \<times> 'p session" where
  "exec_step drv inputs i n_steps step s =
     (case subscript step ''action'' of
        Inl e \<Rightarrow> (Some e, s)
      | Inr action \<Rightarrow>
          (let s1 = emit (Log (StepLine (i + 1) n_steps action)) s in
           if action = JStr ''navigate'' then
             (case subscript step ''url'' of
                Inl e \<Rightarrow> (Some e, s1)
              | Inr url \<Rightarrow> call_driver drv (Goto url) s1)
           else if action = JStr ''click'' then
             (case subscript step ''selector'' of
                Inl e \<Rightarrow> (Some e, s1)
              | Inr selector \<Rightarrow> call_driver drv (ClickCall selector) s1)
           else if action = JStr ''fill'' then
             (case effective_value inputs step of
                Inl e \<Rightarrow> (Some e, s1)
              | Inr v \<Rightarrow>
                  (case subscript step ''selector'' of
                     Inl e \<Rightarrow> (Some e, s1)
                   | Inr selector \<Rightarrow> call_driver drv (FillCall selector v) s1))
           else if action = JStr ''wait'' then
             (case wait_seconds step of
                Inl e \<Rightarrow> (Some e, s1)
              | Inr secs \<Rightarrow> (None, emit (Sleep secs) s1))
           else (None, emit (Log (UnknownAction action)) s1)))"

fun run_steps ::
  "'p driver \<Rightarrow> (json \<rightharpoonup> json) \<Rightarrow> nat \<Rightarrow> nat \<Rightarrow> json list \<Rightarrow> 'p session \<Rightarrow> error option \<times> 'p session" where
  "run_steps drv inputs i n_steps [] s = (None, s)"
| "run_steps drv inputs i n_steps (step # rest) s =
     (case exec_step drv inputs i n_steps step s of
        (Some e, s') \<Rightarrow> (Some e, s')
      | (None, s') \<Rightarrow> run_steps drv inputs (i + 1) n_steps rest s')"

text \<open>
  The \<open>try\<close> block, and then the whole of \<open>run_recipe\<close> with its \<open>except\<close> and
  \<open>finally\<close> clauses. The recipe's name is read before the browser is launched.
\<close>

definition try_body :: "'p driver \<Rightarrow> (json \<rightharpoonup> json) \<Rightarrow> pydict \<Rightarrow> 'p session \<Rightarrow> error option \<times> 'p session" where
  "try_body drv inputs recipe s =
     (case getitem recipe ''steps'' of
        Inl e \<Rightarrow> (Some e, s)
      | Inr sts \<Rightarrow>
          (case iterate sts of
             Inl e \<Rightarrow> (Some e, s)
           | Inr xs \<Rightarrow>
               (case run_steps drv inputs 0 (length xs) xs s of
                  (Some e, s') \<Rightarrow> (Some e, s')
                | (None, s') \<Rightarrow> (None, emit (Log Finished) s'))))"

definition run_recipe :: "'p driver \<Rightarrow> pydict \<Rightarrow> (json \<rightharpoonup> json) \<Rightarrow> 'p \<Rightarrow> error + 'p session" where
  "run_recipe drv recipe inputs p0 =
     (case getitem recipe ''name'' of
        Inl e \<Rightarrow> Inl e
      | Inr name \<Rightarrow>
          (let s0 = \<lparr>page = p0, trace = [Log (Running name), Launch]\<rparr>;
               s1 = (case try_body drv inputs recipe s0 of
                       (Some e, s') \<Rightarrow> emit (Log (ErrorLine e)) s'
                     | (None, s') \<Rightarrow> s')
           in Inr (emit Close (emit (Sleep 3) s1))))"

section \<open>Selector synthesis: \<open>getUniqueSelector\<close>\<close>

text \<open>
  The script that the recorder injects into the page. The document and the built-in
  \<open>CSS.escape\<close> belong to the browser and are parameters: \<open>qsa_length b sel\<close> is
  \<open>document.querySelectorAll(sel).length\<close>, or \<open>None\<close> when the selector is not valid
  and the call throws. An element carries what the function reads from it; \<open>child_index\<close>
  is its position among the children of its parent, counted from 0.
\<close>

record browser =
  css_escape :: "string \<Rightarrow> string"
  qsa_length :: "string \<Rightarrow> nat option"

datatype element = Element
  (el_id : string)
  (el_name : "string option")
  (aria_label : "string option")
  (placeholder : "string option")
  (className : string)
  (tagName : string)
  (parentElement : "element option")
  (child_index : nat)

text \<open>
  \<open>className.split(/\s+/)\<close> splits at each run of white space (here the ASCII white
  space characters) and keeps the empty strings at both ends; \<open>toLowerCase\<close> is given
  for ASCII letters; \<open>show_nat\<close> is the decimal numeral that the template literal
  produces for the index.
\<close>

definition js_space :: "char \<Rightarrow> bool" where
  "js_space c = (c \<in> set [CHR 0x09, CHR 0x0A, CHR 0x0B, CHR 0x0C, CHR 0x0D, CHR 0x20])"

function split_ws :: "string \<Rightarrow> string list" where
  "split_ws s =
     (let w = takeWhile (\<lambda>c. \<not> js_space c) s;
          rest = dropWhile (\<lambda>c. \<not> js_space c) s
      in if rest = [] then [w] else w # split_ws (dropWhile js_space rest))"
  by pat_completeness auto
termination
proof (relation "measure length")
  fix s :: string and w rest
  assume rest: "rest = dropWhile (\<lambda>c. \<not> js_space c) s" and ne: "rest \<noteq> []"
  from ne obtain c cs where cs: "rest = c # cs" by (cases rest) auto
  have "dropWhile (\<lambda>c. \<not> js_space c) s \<noteq> []" using rest ne by simp
  from hd_dropWhile [OF this] have "js_space c" using rest cs by (metis list.sel(1))
  then have "length (dropWhile js_space rest) \<le> length cs"
    using cs length_dropWhile_le [of js_space cs] by simp
  moreover have "length rest \<le> length s"
    using rest length_dropWhile_le [of "\<lambda>c. \<not> js_space c" s] by simp
  ultimately show "(dropWhile js_space rest, s) \<in> measure length"
    using cs by simp
qed simp

definition to_lower_char :: "char \<Rightarrow> char" where
  "to_lower_char c =
     (let n = (of_char c :: nat) in if 65 \<le> n \<and> n \<le> 90 then char_of (n + 32) else c)"

definition toLowerCase :: "string \<Rightarrow> string" where
  "toLowerCase s = map to_lower_char s"

function show_nat :: "nat \<Rightarrow> string" where
  "show_nat n =
     (if n < 10 then [char_of (48 + n)] else show_nat (n div 10) @ [char_of (48 + n mod 10)])"
  by pat_completeness auto
termination
  by (relation "measure id") auto

definition count_matches :: "browser \<Rightarrow> string \<Rightarrow> error + nat" where
  "count_matches b sel =
     (case qsa_length b sel of None \<Rightarrow> Inl (SyntaxError sel) | Some n \<Rightarrow> Inr n)"

text \<open>
  Each of the first five rules tests an attribute for truthiness, then counts the matches
  of its selector and returns it when the count is one; otherwise the next rule is tried.
\<close>

fun truthy :: "string option \<Rightarrow> bool" where
  "truthy None = False"
| "truthy (Some s) = (s \<noteq> [])"

definition attr_selector :: "string \<Rightarrow> string option \<Rightarrow> string" where
  "attr_selector a v = ''['' @ a @ ''='' @ [CHR 0x22] @ (case v of Some s \<Rightarrow> s | None \<Rightarrow> []) @ [CHR 0x22] @ '']''"

definition if_unique :: "browser \<Rightarrow> bool \<Rightarrow> string \<Rightarrow> error + string \<Rightarrow> error + string" where
  "if_unique b present sel otherwise =
     (if present then
        (case count_matches b sel of
           Inl e \<Rightarrow> Inl e
         | Inr n \<Rightarrow> if n = 1 then Inr sel else otherwise)
      else otherwise)"

definition class_selector :: "browser \<Rightarrow> string \<Rightarrow> string" where
  "class_selector b cls = concat (map (\<lambda>c. ''.'' @ css_escape b c) (take 3 (split_ws cls)))"

fun unique_selector :: "browser \<Rightarrow> element \<Rightarrow> error + string" where
  "unique_selector b (Element eid name aria ph cls tag parent idx) =
     if_unique b (eid \<noteq> []) (''#'' @ css_escape b eid)
    (if_unique b (truthy name) (attr_selector ''name'' name)
    (if_unique b (truthy aria) (attr_selector ''aria-label'' aria)
    (if_unique b (truthy ph) (attr_selector ''placeholder'' ph)
    (if_unique b (cls \<noteq> [] \<and> class_selector b cls \<noteq> []) (toLowerCase tag @ class_selector b cls)
    (case parent of
       None \<Rightarrow> Inr (toLowerCase tag)
     | Some p \<Rightarrow>
         (case unique_selector b p of
            Inl e \<Rightarrow> Inl e
          | Inr parentSelector \<Rightarrow>
              if parentSelector \<noteq> []
              then Inr (parentSelector @ '' > '' @ toLowerCase tag @ '':nth-child(''
                        @ show_nat (idx + 1) @ '')'')
              else Inr (toLowerCase tag)))))))"

definition getUniqueSelector :: "browser \<Rightarrow> element option \<Rightarrow> error + string option" where
  "getUniqueSelector b el =
     (case el of
        None \<Rightarrow> Inr None
      | Some e \<Rightarrow> (case unique_selector b e of Inl err \<Rightarrow> Inl err | Inr s \<Rightarrow> Inr (Some s)))"

section \<open>The store: \<open>_save_recipe\<close>\<close>









section \<open>Notions used in the statements\<close>

text \<open>
  A fill step, its selector, and the steps on which the loop of \<open>_collapse_fills\<close> does
  not raise: a step needs an action, and a fill needs a hashable selector.
\<close>

definition is_fill :: "step \<Rightarrow> bool" where
  "is_fill st = (map_of st ''action'' = Some (JStr ''fill''))"

definition selector_of :: "step \<Rightarrow> json option" where
  "selector_of st = map_of st ''selector''"

definition step_ok :: "step \<Rightarrow> bool" where
  "step_ok st = (case map_of st ''action'' of
                   None \<Rightarrow> False
                 | Some a \<Rightarrow> a = JStr ''fill'' \<longrightarrow>
                     (case map_of st ''selector'' of None \<Rightarrow> False | Some sel \<Rightarrow> hashable sel))"

definition fill_ok :: "step \<Rightarrow> bool" where
  "fill_ok st = (is_fill st \<and> step_ok st)"

text \<open>
  What the loop returns on such steps, as a function of the steps left and of
  \<open>last_fills\<close>; and the invariant of \<open>last_fills\<close>: its keys are distinct and each
  entry is a fill step filed under its own selector.
\<close>

fun collapsed_of :: "step list \<Rightarrow> (json \<times> step) list \<Rightarrow> step list" where
  "collapsed_of [] lf = map snd lf"
| "collapsed_of (st # sts) lf =
     (if is_fill st then collapsed_of sts (AList.update (the (selector_of st)) st lf)
      else map snd lf @ st # collapsed_of sts [])"

definition pending_ok :: "(json \<times> step) list \<Rightarrow> bool" where
  "pending_ok lf = (distinct (map fst lf) \<and>
     (\<forall>(k, st) \<in> set lf. is_fill st \<and> selector_of st = Some k \<and> hashable k))"

text \<open>
  The canonical form: no two neighbours are fills on the same selector. A block of
  consecutive fills is delimited by the ends of the sequence or by steps that are not
  fills. \<open>last_per_selector\<close> says what a block collapses to in the words of the
  specification: one step for each selector of the block, the last fill on that selector,
  the selectors in the order of their first fill.
\<close>

fun no_adjacent_same_fill :: "step list \<Rightarrow> bool" where
  "no_adjacent_same_fill (a # b # rest) =
     (\<not> (is_fill a \<and> is_fill b \<and> selector_of a = selector_of b) \<and>
      no_adjacent_same_fill (b # rest))"
| "no_adjacent_same_fill _ = True"

definition ends_with_non_fill :: "step list \<Rightarrow> bool" where
  "ends_with_non_fill pre = (case rev pre of [] \<Rightarrow> True | st # _ \<Rightarrow> \<not> is_fill st)"

definition starts_with_non_fill :: "step list \<Rightarrow> bool" where
  "starts_with_non_fill post = (case post of [] \<Rightarrow> True | st # _ \<Rightarrow> \<not> is_fill st)"

fun last_per_selector :: "step list \<Rightarrow> step list" where
  "last_per_selector [] = []"
| "last_per_selector (st # B) =
     last (st # filter (\<lambda>x. selector_of x = selector_of st) B)
     # last_per_selector (filter (\<lambda>x. selector_of x \<noteq> selector_of st) B)"

text \<open>
  The tokens of a step's value, and values written as templates: literal text without an
  opening brace, alternating with tokens in braces, a token being a non-empty string
  without a closing brace.
\<close>

definition value_tokens :: "step \<Rightarrow> string set" where
  "value_tokens st =
     (case map_of st ''value'' of Some (JStr v) \<Rightarrow> set (findall_placeholders v) | _ \<Rightarrow> {})"

datatype segment = Lit string | Tok string

fun render :: "segment list \<Rightarrow> string" where
  "render [] = []"
| "render (Lit s # segs) = s @ render segs"
| "render (Tok t # segs) = ''{'' @ t @ ''}'' @ render segs"

fun tokens_of :: "segment list \<Rightarrow> string list" where
  "tokens_of [] = []"
| "tokens_of (Lit s # segs) = tokens_of segs"
| "tokens_of (Tok t # segs) = t # tokens_of segs"

fun wf_segment :: "segment \<Rightarrow> bool" where
  "wf_segment (Lit s) = (CHR ''{'' \<notin> set s)"
| "wf_segment (Tok t) = (t \<noteq> [] \<and> CHR ''}'' \<notin> set t)"

text \<open>
  The session of \<open>run_recipe\<close> once the browser is launched, and the end of every run:
  the last log line, the sleep of three seconds and the closing of the browser.
\<close>

definition launched :: "json \<Rightarrow> 'p \<Rightarrow> 'p session" where
  "launched name p0 = \<lparr>page = p0, trace = [Log (Running name), Launch]\<rparr>"

definition finish :: "log_line \<Rightarrow> 'p session \<Rightarrow> 'p session" where
  "finish l s = s\<lparr>trace := trace s @ [Log l, Sleep 3, Close]\<rparr>"

section \<open>Concrete inputs\<close>

text \<open>A recording: a navigation, fills on two selectors, a click.\<close>

definition ex_nav :: step where
  "ex_nav = [(''action'', JStr ''navigate''), (''timestamp'', JStr ''t0''),
             (''url'', JStr ''https://example.test'')]"

definition ex_q_a :: step where
  "ex_q_a = [(''action'', JStr ''fill''), (''timestamp'', JStr ''t1''),
             (''selector'', JStr ''#q''), (''value'', JStr ''a'')]"

definition ex_r_x :: step where
  "ex_r_x = [(''action'', JStr ''fill''), (''timestamp'', JStr ''t2''),
             (''selector'', JStr ''#r''), (''value'', JStr ''x'')]"

definition ex_q_ab :: step where
  "ex_q_ab = [(''action'', JStr ''fill''), (''timestamp'', JStr ''t3''),
              (''selector'', JStr ''#q''), (''value'', JStr ''ab'')]"

definition ex_click :: step where
  "ex_click = [(''action'', JStr ''click''), (''timestamp'', JStr ''t4''),
               (''selector'', JStr ''#submit''), (''text'', JStr ''Go'')]"

definition ex_steps :: "step list" where
  "ex_steps = [ex_nav, ex_q_a, ex_r_x, ex_q_ab, ex_click]"

definition ex_collapsed :: "step list" where
  "ex_collapsed = [ex_nav, ex_q_ab, ex_r_x, ex_click]"

text \<open>The events of such a recording: three inputs into one field before the click.\<close>

definition ex_events :: "(string \<times> event) list" where
  "ex_events =
     [(''t0'', Navigated ''https://example.test''),
      (''t1'', RecordInput (Some ''#q'') (JStr ''a'')),
      (''t2'', RecordInput (Some ''#q'') (JStr ''ab'')),
      (''t3'', RecordInput (Some ''#q'') (JStr ''abc'')),
      (''t4'', RecordClick (Some ''#submit'') (JStr ''Go''))]"

text \<open>Fill steps whose values hold placeholders.\<close>

definition ex_fill :: "string \<Rightarrow> string \<Rightarrow> step" where
  "ex_fill sel v = [(''action'', JStr ''fill''), (''timestamp'', JStr ''t''),
                    (''selector'', JStr sel), (''value'', JStr v)]"

definition ex_segs :: "segment list" where
  "ex_segs = [Lit ''Hello '', Tok ''name'', Lit '', your code is '', Tok ''otp'']"

definition ex_fills :: "step list" where
  "ex_fills = [ex_fill ''#msg'' ''Hello {name}, your code is {otp}'',
               ex_fill ''#plain'' ''no tokens here'',
               ex_fill ''#again'' ''{name}'']"

text \<open>
  A replay: the page counts the calls it has served and has no element for #submit, so
  the click fails; a fourth step follows the click. A second driver fails on every call.
\<close>

definition ex_driver :: "nat driver" where
  "ex_driver c p =
     (if c = ClickCall (JStr ''#submit'') then (Some ''no element matches #submit'', p + 1)
      else (None, p + 1))"

definition ex_offline :: "nat driver" where
  "ex_offline c p = (Some ''offline'', p)"

definition ex_replay_steps :: "json list" where
  "ex_replay_steps =
     [JObj [(''action'', JStr ''navigate''), (''timestamp'', JStr ''t0''),
            (''url'', JStr ''https://example.test'')],
      JObj [(''action'', JStr ''fill''), (''timestamp'', JStr ''t3''),
            (''selector'', JStr ''#q''), (''value'', JStr ''abc'')],
      JObj [(''action'', JStr ''click''), (''timestamp'', JStr ''t4''),
            (''selector'', JStr ''#submit''), (''text'', JStr ''Go'')],
      JObj [(''action'', JStr ''fill''), (''timestamp'', JStr ''t5''),
            (''selector'', JStr ''#after''), (''value'', JStr ''never typed'')]]"

definition ex_recipe :: "json list \<Rightarrow> pydict" where
  "ex_recipe sts =
     [(''name'', JStr ''search''), (''description'', JStr []), (''created'', JStr ''t9''),
      (''steps'', JArr sts), (''placeholders'', JArr [])]"

definition ex_nav_dict :: pydict where
  "ex_nav_dict = [(''action'', JStr ''navigate''), (''timestamp'', JStr ''t0''),
                  (''url'', JStr ''https://example.test'')]"

definition ex_fill_dict :: pydict where
  "ex_fill_dict = [(''action'', JStr ''fill''), (''timestamp'', JStr ''t3''),
                   (''selector'', JStr ''#q''), (''value'', JStr ''abc'')]"

definition ex_click_dict :: pydict where
  "ex_click_dict = [(''action'', JStr ''click''), (''timestamp'', JStr ''t4''),
                    (''selector'', JStr ''#submit''), (''text'', JStr ''Go'')]"

definition ex_failed_trace :: "effect list" where
  "ex_failed_trace =
     [Log (Running (JStr ''search'')), Launch,
      Log (StepLine 1 4 (JStr ''navigate'')), Call (Goto (JStr ''https://example.test'')),
      Log (StepLine 2 4 (JStr ''fill'')), Call (FillCall (JStr ''#q'') (JStr ''abc'')),
      Log (StepLine 3 4 (JStr ''click'')), Call (ClickCall (JStr ''#submit'')),
      Log (ErrorLine (DriverError ''no element matches #submit'')), Sleep 3, Close]"

definition ex_finished_trace :: "effect list" where
  "ex_finished_trace =
     [Log (Running (JStr ''search'')), Launch,
      Log (StepLine 1 2 (JStr ''navigate'')), Call (Goto (JStr ''https://example.test'')),
      Log (StepLine 2 2 (JStr ''fill'')), Call (FillCall (JStr ''#q'') (JStr ''abc'')),
      Log Finished, Sleep 3, Close]"



text \<open>An input element whose id and whose name are both unique in its document.\<close>

definition ex_form :: element where
  "ex_form = Element [] None None None [] ''FORM'' None 0"

definition ex_input :: element where
  "ex_input = Element ''q'' (Some ''query'') None (Some ''Search'') ''field  wide'' ''INPUT''
                (Some ex_form) 2"

definition ex_document :: browser where
  "ex_document =
     \<lparr>css_escape = (\<lambda>s. s),
      qsa_length = (\<lambda>sel. if sel = ''#q'' \<or> sel = attr_selector ''name'' (Some ''query'')
                           then Some 1 else Some 0)\<rparr>"






section \<open>The batch pass\<close>

text \<open>The loop returns a result exactly on the steps it accepts, and then this one.\<close>

lemma collapse_loop_ok:
  "list_all step_ok sts \<Longrightarrow> collapse_loop sts acc lf = Inr (acc @ collapsed_of sts lf)"
  by (induction sts arbitrary: acc lf)
     (auto simp: step_ok_def getitem_def is_fill_def selector_of_def split: option.splits)

lemma collapse_loop_Inr_ok:
  "collapse_loop sts acc lf = Inr T \<Longrightarrow> list_all step_ok sts"
  by (induction sts arbitrary: acc lf)
     (auto simp: step_ok_def getitem_def split: option.splits if_splits)

lemma collapse_fills_iff:
  "collapse_fills S = Inr T \<longleftrightarrow> list_all step_ok S \<and> T = collapsed_of S []"
  unfolding collapse_fills_def
  using collapse_loop_ok [of S "[]" "[]"] collapse_loop_Inr_ok [of S "[]" "[]" T]
  by auto

lemma pending_ok_Nil: "pending_ok []"
  by (simp add: pending_ok_def)

lemma set_update_subset: "set (AList.update k v al) \<subseteq> insert (k, v) (set al)"
  by (induction al) auto

lemma pending_ok_update:
  "pending_ok lf \<Longrightarrow> is_fill st \<Longrightarrow> selector_of st = Some k \<Longrightarrow> hashable k \<Longrightarrow>
   pending_ok (AList.update k st lf)"
  unfolding pending_ok_def
  using set_update_subset [of k st lf] by (auto simp: distinct_update)

lemma update_fresh: "k \<notin> fst ` set al \<Longrightarrow> AList.update k v al = al @ [(k, v)]"
  by (induction al) auto

lemma pending_ok_step_ok: "pending_ok lf \<Longrightarrow> list_all step_ok (map snd lf)"
  by (auto simp: pending_ok_def list_all_iff step_ok_def is_fill_def selector_of_def)

text \<open>Pending fills put back in front of a sequence are read back as they were.\<close>

lemma collapsed_of_pending:
  "pending_ok (lf0 @ lf) \<Longrightarrow> collapsed_of (map snd lf @ R) lf0 = collapsed_of R (lf0 @ lf)"
proof (induction lf arbitrary: lf0)
  case Nil
  then show ?case by simp
next
  case (Cons p lf)
  obtain k st where p: "p = (k, st)" by (cases p)
  from Cons.prems p have fill: "is_fill st" and sel: "selector_of st = Some k"
    and fresh: "k \<notin> fst ` set lf0"
    by (auto simp: pending_ok_def)
  have "pending_ok ((lf0 @ [(k, st)]) @ lf)" using Cons.prems p by simp
  from Cons.IH [OF this] show ?case
    using fill sel fresh p by (simp add: update_fresh)
qed

lemma step_ok_collapsed_of:
  "pending_ok lf \<Longrightarrow> list_all step_ok S \<Longrightarrow> list_all step_ok (collapsed_of S lf)"
proof (induction S arbitrary: lf)
  case Nil
  then show ?case by (simp add: pending_ok_step_ok)
next
  case (Cons st S)
  show ?case
  proof (cases "is_fill st")
    case True
    with Cons.prems obtain k where k: "selector_of st = Some k" "hashable k"
      by (auto simp: step_ok_def is_fill_def selector_of_def split: option.splits)
    with Cons True show ?thesis by (simp add: pending_ok_update)
  next
    case False
    with Cons show ?thesis by (simp add: pending_ok_step_ok pending_ok_Nil)
  qed
qed

lemma collapsed_of_idem:
  "pending_ok lf \<Longrightarrow> list_all step_ok S \<Longrightarrow>
   collapsed_of (collapsed_of S lf) [] = collapsed_of S lf"
proof (induction S arbitrary: lf)
  case Nil
  then show ?case using collapsed_of_pending [of "[]" lf "[]"] by simp
next
  case (Cons st S)
  show ?case
  proof (cases "is_fill st")
    case True
    with Cons.prems obtain k where k: "selector_of st = Some k" "hashable k"
      by (auto simp: step_ok_def is_fill_def selector_of_def split: option.splits)
    with Cons True show ?thesis by (simp add: pending_ok_update)
  next
    case False
    have "collapsed_of (map snd lf @ st # collapsed_of S []) [] =
          collapsed_of (st # collapsed_of S []) lf"
      using collapsed_of_pending [of "[]" lf] Cons.prems(1) by simp
    with Cons False show ?thesis by (simp add: pending_ok_Nil)
  qed
qed

lemma nonfill_collapsed_of:
  "pending_ok lf \<Longrightarrow> list_all step_ok S \<Longrightarrow>
   filter (\<lambda>st. \<not> is_fill st) (collapsed_of S lf) = filter (\<lambda>st. \<not> is_fill st) S"
proof (induction S arbitrary: lf)
  case Nil
  then show ?case by (auto simp: pending_ok_def filter_empty_conv)
next
  case (Cons st S)
  show ?case
  proof (cases "is_fill st")
    case True
    with Cons.prems obtain k where k: "selector_of st = Some k" "hashable k"
      by (auto simp: step_ok_def is_fill_def selector_of_def split: option.splits)
    with Cons True show ?thesis by (simp add: pending_ok_update)
  next
    case False
    have "filter (\<lambda>st. \<not> is_fill st) (map snd lf) = []"
      using Cons.prems(1) by (auto simp: pending_ok_def filter_empty_conv)
    with Cons False show ?thesis by (simp add: pending_ok_Nil)
  qed
qed

lemmas ex_step_defs = ex_nav_def ex_q_a_def ex_r_x_def ex_q_ab_def ex_click_def

lemma ex_collapse: "collapse_fills ex_steps = Inr ex_collapsed"
  by (simp add: collapse_fills_def getitem_def ex_steps_def ex_collapsed_def ex_step_defs)

text \<open>
  C2: the batch pass is idempotent. Whenever \<open>_collapse_fills\<close> returns a sequence,
  running it on that sequence returns the same sequence.
\<close>

theorem collapse_fills_idempotent:
  "collapse_fills S = Inr T \<Longrightarrow> collapse_fills T = Inr T"
proof -
  assume "collapse_fills S = Inr T"
  then have ok: "list_all step_ok S" and T: "T = collapsed_of S []"
    by (simp_all add: collapse_fills_iff)
  have "list_all step_ok T"
    using ok T by (simp add: step_ok_collapsed_of pending_ok_Nil)
  moreover have "collapsed_of T [] = T"
    using ok T by (simp add: collapsed_of_idem pending_ok_Nil)
  ultimately show ?thesis by (simp add: collapse_fills_iff)
qed

theorem collapse_fills_idempotent_witness:
  "collapse_fills ex_steps = Inr ex_collapsed \<and> collapse_fills ex_collapsed = Inr ex_collapsed"
  using collapse_fills_idempotent [OF ex_collapse] ex_collapse by simp

text \<open>
  C10: the batch pass neither drops, nor duplicates, nor reorders the steps that are not
  fills. The steps of the output that are not fills are those of the input, in the same
  order.
\<close>

theorem collapse_fills_keeps_non_fills:
  "collapse_fills S = Inr T \<Longrightarrow>
   filter (\<lambda>st. \<not> is_fill st) T = filter (\<lambda>st. \<not> is_fill st) S"
  by (simp add: collapse_fills_iff nonfill_collapsed_of pending_ok_Nil)

theorem collapse_fills_keeps_non_fills_witness:
  "collapse_fills ex_steps = Inr ex_collapsed \<and>
   filter (\<lambda>st. \<not> is_fill st) ex_collapsed = filter (\<lambda>st. \<not> is_fill st) ex_steps"
  using collapse_fills_keeps_non_fills [OF ex_collapse] ex_collapse by simp

subsection \<open>The canonical form\<close>

lemma fill_ok_selector:
  "fill_ok st \<Longrightarrow> \<exists>k. selector_of st = Some k \<and> hashable k"
  by (auto simp: fill_ok_def step_ok_def is_fill_def selector_of_def split: option.splits)

lemma collapsed_of_after_non_fill:
  "\<not> is_fill nf \<Longrightarrow>
   collapsed_of (pre @ nf # R) lf = collapsed_of (pre @ [nf]) lf @ collapsed_of R []"
  by (induction pre arbitrary: lf) simp_all

lemma collapsed_of_prefix:
  "ends_with_non_fill pre \<Longrightarrow>
   collapsed_of (pre @ R) [] = collapsed_of pre [] @ collapsed_of R []"
proof (cases pre rule: rev_cases)
  case Nil
  then show ?thesis by simp
next
  case (snoc pre' nf)
  assume "ends_with_non_fill pre"
  with snoc have "\<not> is_fill nf" by (simp add: ends_with_non_fill_def)
  from collapsed_of_after_non_fill [OF this, of pre' R "[]"] snoc show ?thesis by simp
qed

lemma collapsed_of_block:
  "list_all is_fill B \<Longrightarrow> starts_with_non_fill post \<Longrightarrow>
   collapsed_of (B @ post) lf = collapsed_of B lf @ collapsed_of post []"
proof (induction B arbitrary: lf)
  case Nil
  then show ?case by (cases post) (simp_all add: starts_with_non_fill_def)
next
  case (Cons st B)
  then show ?case by simp
qed

lemma collapsed_of_head_entry:
  "list_all fill_ok B \<Longrightarrow> selector_of v = Some k \<Longrightarrow>
   collapsed_of B ((k, v) # lf) =
     last (v # filter (\<lambda>x. selector_of x = Some k) B)
     # collapsed_of (filter (\<lambda>x. selector_of x \<noteq> Some k) B) lf"
proof (induction B arbitrary: v lf)
  case Nil
  then show ?case by simp
next
  case (Cons st B)
  from Cons.prems have st: "fill_ok st" and B: "list_all fill_ok B" by simp_all
  from st have fill: "is_fill st" by (simp add: fill_ok_def)
  from fill_ok_selector [OF st] obtain k' where k': "selector_of st = Some k'" by blast
  show ?case
  proof (cases "k' = k")
    case True
    with Cons.IH [OF B, of st lf] k' fill show ?thesis by simp
  next
    case False
    with Cons.IH [OF B Cons.prems(2), of "AList.update k' st lf"] k' fill
    show ?thesis by simp
  qed
qed

lemma collapsed_of_last_per_selector:
  "list_all fill_ok B \<Longrightarrow> collapsed_of B [] = last_per_selector B"
proof (induction B rule: last_per_selector.induct)
  case 1
  show ?case by simp
next
  case (2 st B)
  from "2.prems" have st: "fill_ok st" and B: "list_all fill_ok B" by simp_all
  from st have fill: "is_fill st" by (simp add: fill_ok_def)
  from fill_ok_selector [OF st] obtain k where k: "selector_of st = Some k" by blast
  have rest: "list_all fill_ok (filter (\<lambda>x. selector_of x \<noteq> selector_of st) B)"
    using B by (simp add: list_all_iff)
  from "2.IH" [OF rest] collapsed_of_head_entry [OF B k, of "[]"] fill k
  show ?case by simp
qed

lemma last_per_selector_same:
  "\<forall>st \<in> set B. selector_of st = sel \<Longrightarrow> B \<noteq> [] \<Longrightarrow> last_per_selector B = [last B]"
proof (cases B)
  case Nil
  assume "B \<noteq> []"
  with Nil show ?thesis by simp
next
  case (Cons st B')
  assume all: "\<forall>st \<in> set B. selector_of st = sel"
  with Cons have "filter (\<lambda>x. selector_of x = selector_of st) B' = B'"
    and "filter (\<lambda>x. selector_of x \<noteq> selector_of st) B' = []"
    by (auto simp: filter_empty_conv filter_id_conv)
  with Cons show ?thesis by simp
qed

lemma last_per_selector_distinct:
  "distinct (map selector_of B) \<Longrightarrow> last_per_selector B = B"
proof (induction B)
  case Nil
  show ?case by simp
next
  case (Cons st B)
  from Cons.prems have ne: "\<forall>x \<in> set B. selector_of x \<noteq> selector_of st"
    by (metis distinct.simps(2) image_eqI list.simps(9) set_map)
  then have "filter (\<lambda>x. selector_of x = selector_of st) B = []"
    and "filter (\<lambda>x. selector_of x \<noteq> selector_of st) B = B"
    by (simp_all add: filter_empty_conv filter_id_conv)
  with Cons show ?case by simp
qed

lemma no_adjacent_pending:
  "pending_ok lf \<Longrightarrow> starts_with_non_fill R \<Longrightarrow> no_adjacent_same_fill R \<Longrightarrow>
   no_adjacent_same_fill (map snd lf @ R)"
proof (induction lf)
  case Nil
  then show ?case by simp
next
  case (Cons p lf)
  obtain k st where p: "p = (k, st)" by (cases p)
  from Cons.prems(1) p have ok: "pending_ok lf" and sel: "selector_of st = Some k"
    and fresh: "k \<notin> fst ` set lf" and sels: "\<forall>(k', st') \<in> set lf. selector_of st' = Some k'"
    by (auto simp: pending_ok_def)
  from Cons.IH [OF ok Cons.prems(2,3)] have IH: "no_adjacent_same_fill (map snd lf @ R)" .
  show ?case
  proof (cases lf)
    case Nil
    with Cons.prems p show ?thesis
      by (cases R) (simp_all add: starts_with_non_fill_def)
  next
    case (Cons q lf')
    obtain k2 st2 where q: "q = (k2, st2)" by (cases q)
    from sels Cons q have "selector_of st2 = Some k2" by simp
    moreover from fresh Cons q have "k \<noteq> k2" by auto
    ultimately show ?thesis using IH Cons q p sel by simp
  qed
qed

lemma no_adjacent_collapsed_of:
  "pending_ok lf \<Longrightarrow> list_all step_ok S \<Longrightarrow>
   \<exists>lf' R. collapsed_of S lf = map snd lf' @ R \<and> pending_ok lf' \<and>
            starts_with_non_fill R \<and> no_adjacent_same_fill R"
proof (induction S arbitrary: lf)
  case Nil
  then have "collapsed_of [] lf = map snd lf @ [] \<and> pending_ok lf \<and>
             starts_with_non_fill [] \<and> no_adjacent_same_fill []"
    by (simp add: starts_with_non_fill_def)
  then show ?case by blast
next
  case (Cons st S)
  show ?case
  proof (cases "is_fill st")
    case True
    with Cons.prems obtain k where k: "selector_of st = Some k" "hashable k"
      by (auto simp: step_ok_def is_fill_def selector_of_def split: option.splits)
    from Cons.prems have S: "list_all step_ok S" by simp
    from Cons.IH [OF pending_ok_update [OF Cons.prems(1) True k] S] True k
    show ?thesis by simp
  next
    case False
    from Cons.prems have S: "list_all step_ok S" by simp
    from Cons.IH [OF pending_ok_Nil S] obtain lf' R where
      c: "collapsed_of S [] = map snd lf' @ R" and ok: "pending_ok lf'"
      and R: "starts_with_non_fill R" "no_adjacent_same_fill R" by blast
    have tail: "no_adjacent_same_fill (collapsed_of S [])"
      unfolding c by (rule no_adjacent_pending [OF ok R])
    have "no_adjacent_same_fill (st # collapsed_of S [])"
      using tail False by (cases "collapsed_of S []") simp_all
    moreover have "starts_with_non_fill (st # collapsed_of S [])"
      using False by (simp add: starts_with_non_fill_def)
    moreover have "collapsed_of (st # S) lf = map snd lf @ (st # collapsed_of S [])"
      using False by simp
    ultimately show ?thesis using Cons.prems(1) by blast
  qed
qed

lemma no_adjacent_collapse:
  "list_all step_ok S \<Longrightarrow> no_adjacent_same_fill (collapsed_of S [])"
proof -
  assume "list_all step_ok S"
  from no_adjacent_collapsed_of [OF pending_ok_Nil this] obtain lf' R where
    c: "collapsed_of S [] = map snd lf' @ R" and ok: "pending_ok lf'"
    and R: "starts_with_non_fill R" "no_adjacent_same_fill R" by blast
  show ?thesis unfolding c by (rule no_adjacent_pending [OF ok R])
qed

lemma ex_fill_ok: "fill_ok ex_q_a" "fill_ok ex_r_x" "fill_ok ex_q_ab"
  by (simp_all add: fill_ok_def is_fill_def step_ok_def ex_step_defs)

lemma ex_non_fill: "\<not> is_fill ex_nav" "\<not> is_fill ex_click"
  by (simp_all add: is_fill_def ex_step_defs)

lemma ex_selectors:
  "selector_of ex_q_a = Some (JStr ''#q'')" "selector_of ex_q_ab = Some (JStr ''#q'')"
  "selector_of ex_r_x = Some (JStr ''#r'')"
  by (simp_all add: selector_of_def ex_step_defs)

lemma ex_single:
  "collapse_fills [ex_nav] = Inr [ex_nav]" "collapse_fills [ex_click] = Inr [ex_click]"
  by (simp_all add: collapse_fills_def getitem_def ex_step_defs)

text \<open>
  C3: the output of the batch pass has no two adjacent fills on the same selector. A block
  of consecutive fills collapses to one step for each of its selectors, carrying the last
  value filled into that selector in the block: a run of fills on one selector becomes its
  last step alone, and fills on distinct selectors are all kept.
\<close>

theorem collapse_fills_canonical:
  "(collapse_fills S = Inr T \<longrightarrow> no_adjacent_same_fill T) \<and>
   (collapse_fills pre = Inr P \<and> ends_with_non_fill pre \<and> list_all fill_ok B \<and>
    collapse_fills post = Inr Q \<and> starts_with_non_fill post \<longrightarrow>
      collapse_fills (pre @ B @ post) = Inr (P @ last_per_selector B @ Q)) \<and>
   (B \<noteq> [] \<and> (\<forall>st \<in> set B. selector_of st = sel) \<longrightarrow> last_per_selector B = [last B]) \<and>
   (distinct (map selector_of B) \<longrightarrow> last_per_selector B = B)"
proof (intro conjI impI)
  assume "collapse_fills S = Inr T"
  then show "no_adjacent_same_fill T"
    by (simp add: collapse_fills_iff no_adjacent_collapse)
next
  assume a: "collapse_fills pre = Inr P \<and> ends_with_non_fill pre \<and> list_all fill_ok B \<and>
    collapse_fills post = Inr Q \<and> starts_with_non_fill post"
  then have pre: "list_all step_ok pre" "P = collapsed_of pre []"
    and post: "list_all step_ok post" "Q = collapsed_of post []"
    and B: "list_all fill_ok B" and e: "ends_with_non_fill pre" and s: "starts_with_non_fill post"
    by (simp_all add: collapse_fills_iff)
  from B have Bf: "list_all is_fill B" and Bok: "list_all step_ok B"
    by (simp_all add: list_all_iff fill_ok_def)
  have "collapsed_of (pre @ B @ post) [] = P @ last_per_selector B @ Q"
    using collapsed_of_prefix [OF e, of "B @ post"] collapsed_of_block [OF Bf s, of "[]"]
      collapsed_of_last_per_selector [OF B] pre(2) post(2) by simp
  then show "collapse_fills (pre @ B @ post) = Inr (P @ last_per_selector B @ Q)"
    using pre(1) post(1) Bok by (simp add: collapse_fills_iff)
next
  assume "B \<noteq> [] \<and> (\<forall>st \<in> set B. selector_of st = sel)"
  then show "last_per_selector B = [last B]"
    using last_per_selector_same [of B sel] by blast
next
  assume "distinct (map selector_of B)"
  then show "last_per_selector B = B" by (rule last_per_selector_distinct)
qed

theorem collapse_fills_canonical_witness:
  "no_adjacent_same_fill [ex_nav, ex_q_ab, ex_r_x, ex_click] \<and>
   collapse_fills ([ex_nav] @ [ex_q_a, ex_r_x, ex_q_ab] @ [ex_click])
     = Inr ([ex_nav] @ [ex_q_ab, ex_r_x] @ [ex_click]) \<and>
   collapse_fills ([ex_nav] @ [ex_q_a, ex_q_ab] @ [ex_click])
     = Inr ([ex_nav] @ [ex_q_ab] @ [ex_click]) \<and>
   collapse_fills ([ex_nav] @ [ex_q_a, ex_r_x] @ [ex_click])
     = Inr ([ex_nav] @ [ex_q_a, ex_r_x] @ [ex_click])"
proof -
  have ctx: "ends_with_non_fill [ex_nav]" "starts_with_non_fill [ex_click]"
    by (simp_all add: ends_with_non_fill_def starts_with_non_fill_def ex_non_fill)
  have lps: "last_per_selector [ex_q_a, ex_r_x, ex_q_ab] = [ex_q_ab, ex_r_x]"
    by (simp add: ex_selectors)
  have same: "\<forall>st \<in> set [ex_q_a, ex_q_ab]. selector_of st = Some (JStr ''#q'')"
    by (simp add: ex_selectors)
  have dist: "distinct (map selector_of [ex_q_a, ex_r_x])"
    by (simp add: ex_selectors)
  from collapse_fills_canonical
    [of "[ex_nav, ex_q_a, ex_r_x, ex_q_ab, ex_click]" "[ex_nav, ex_q_ab, ex_r_x, ex_click]"
        "[ex_nav]" "[ex_nav]" "[ex_q_a, ex_r_x, ex_q_ab]" "[ex_click]" "[ex_click]"]
  have 1: "no_adjacent_same_fill [ex_nav, ex_q_ab, ex_r_x, ex_click]"
    and 2: "collapse_fills ([ex_nav] @ [ex_q_a, ex_r_x, ex_q_ab] @ [ex_click])
             = Inr ([ex_nav] @ [ex_q_ab, ex_r_x] @ [ex_click])"
    using ex_collapse [unfolded ex_steps_def ex_collapsed_def] ex_single ctx ex_fill_ok lps by simp_all
  from collapse_fills_canonical
    [of "[]" "[]" "[ex_nav]" "[ex_nav]" "[ex_q_a, ex_q_ab]" "[ex_click]" "[ex_click]"
        "Some (JStr ''#q'')"]
  have 3: "collapse_fills ([ex_nav] @ [ex_q_a, ex_q_ab] @ [ex_click])
             = Inr ([ex_nav] @ [ex_q_ab] @ [ex_click])"
    using ex_single ctx ex_fill_ok same by simp
  from collapse_fills_canonical
    [of "[]" "[]" "[ex_nav]" "[ex_nav]" "[ex_q_a, ex_r_x]" "[ex_click]" "[ex_click]"]
  have 4: "collapse_fills ([ex_nav] @ [ex_q_a, ex_r_x] @ [ex_click])
             = Inr ([ex_nav] @ [ex_q_a, ex_r_x] @ [ex_click])"
    using ex_single ctx ex_fill_ok dist by simp
  from 1 2 3 4 show ?thesis by blast
qed

section \<open>The live pass\<close>

text \<open>
  The step that an event is recorded as, and what \<open>_add_step\<close> does with it. No event
  that the call sites can deliver makes \<open>_add_step\<close> raise.
\<close>

lemma raw_step_input:
  "is_fill (raw_step (t, RecordInput sel v))"
  "selector_of (raw_step (t, RecordInput sel v)) = Some (selector_json sel)"
  by (simp_all add: raw_step_def mk_step_def dict_merge_def is_fill_def selector_of_def)

lemma hashable_selector_json: "hashable (selector_json sel)"
  by (cases sel) simp_all

lemma raw_step_other:
  "\<not> is_fill (raw_step (t, RecordClick sel txt))"
  "\<not> is_fill (raw_step (t, Navigated url))"
  "\<not> is_fill (raw_step (t, PromptCmd msg))"
  by (simp_all add: raw_step_def mk_step_def dict_merge_def is_fill_def)

lemma raw_step_ok: "step_ok (raw_step te)"
proof -
  obtain t ev where te: "te = (t, ev)" by (cases te)
  show ?thesis unfolding te
    by (cases ev)
       (simp_all add: raw_step_def mk_step_def dict_merge_def step_ok_def hashable_selector_json)
qed

lemma deliver_input:
  "deliver (t, RecordInput sel v) r =
     (None, r\<lparr>last_fill_for_selector :=
                 AList.update (selector_json sel) (raw_step (t, RecordInput sel v))
                   (last_fill_for_selector r)\<rparr>)"
  by (simp add: deliver_def add_step_def raw_step_def getitem_def hashable_selector_json)

lemma deliver_other:
  "\<not> is_fill (raw_step (t, ev)) \<Longrightarrow>
   deliver (t, ev) r =
     (None, r\<lparr>steps := steps r @ map snd (last_fill_for_selector r) @ [raw_step (t, ev)],
               last_fill_for_selector := []\<rparr>)"
proof (cases ev)
  case (RecordInput sel v)
  assume "\<not> is_fill (raw_step (t, ev))"
  with RecordInput raw_step_input(1) [of t sel v] show ?thesis by simp
qed (simp_all add: deliver_def add_step_def raw_step_def)

lemma deliver_no_error: "fst (deliver te r) = None"
proof -
  obtain t ev where te: "te = (t, ev)" by (cases te)
  show ?thesis unfolding te
    by (cases ev) (simp_all add: deliver_input deliver_other raw_step_other)
qed

text \<open>The recorder runs the loop of the batch pass, one event at a time.\<close>

lemma live_as_batch:
  "steps (flush_fills (record_events tes r)) =
   steps r @ collapsed_of (raw_steps tes) (last_fill_for_selector r)"
proof (induction tes arbitrary: r)
  case Nil
  show ?case by (simp add: flush_fills_def raw_steps_def)
next
  case (Cons te tes)
  obtain t ev where te: "te = (t, ev)" by (cases te)
  show ?case
  proof (cases "is_fill (raw_step (t, ev))")
    case True
    then obtain sel v where ev: "ev = RecordInput sel v"
      by (cases ev) (simp_all add: raw_step_other)
    show ?thesis
      using Cons.IH True unfolding te ev
      by (simp add: deliver_input raw_steps_def raw_step_input)
  next
    case False
    show ?thesis
      using Cons.IH False unfolding te
      by (simp add: deliver_other raw_steps_def)
  qed
qed

lemma raw_steps_ok: "list_all step_ok (raw_steps tes)"
  by (simp add: raw_steps_def list_all_iff raw_step_ok)

text \<open>The recording of the example leaves three steps, the fill with the last value.\<close>

lemma live_steps_example:
  "live_steps ex_events =
     [[(''action'', JStr ''navigate''), (''timestamp'', JStr ''t0''),
       (''url'', JStr ''https://example.test'')],
      [(''action'', JStr ''fill''), (''timestamp'', JStr ''t3''),
       (''selector'', JStr ''#q''), (''value'', JStr ''abc'')],
      [(''action'', JStr ''click''), (''timestamp'', JStr ''t4''),
       (''selector'', JStr ''#submit''), (''text'', JStr ''Go'')]]"
  by (simp add: live_steps_def ex_events_def start_recording_def flush_fills_def deliver_def
        add_step_def mk_step_def dict_merge_def getitem_def)

text \<open>
  C1: for every stream of events, the live pass (\<open>_add_step\<close> for each event, then the
  flush of the pending fills) followed by the batch pass gives the same steps as the batch
  pass on the raw stream of steps. Both succeed, and the result is what the live pass had
  already produced.
\<close>

theorem live_then_batch_eq_batch:
  "collapse_fills (live_steps tes) = collapse_fills (raw_steps tes) \<and>
   collapse_fills (raw_steps tes) = Inr (live_steps tes)"
proof -
  have live: "live_steps tes = collapsed_of (raw_steps tes) []"
    using live_as_batch [of tes "start_recording [] []"]
    by (simp add: live_steps_def start_recording_def)
  have raw: "collapse_fills (raw_steps tes) = Inr (live_steps tes)"
    by (simp add: collapse_fills_iff raw_steps_ok live)
  have "list_all step_ok (live_steps tes)"
    unfolding live by (simp add: step_ok_collapsed_of pending_ok_Nil raw_steps_ok)
  moreover have "collapsed_of (live_steps tes) [] = live_steps tes"
    unfolding live by (simp add: collapsed_of_idem pending_ok_Nil raw_steps_ok)
  ultimately have "collapse_fills (live_steps tes) = Inr (live_steps tes)"
    by (simp add: collapse_fills_iff)
  with raw show ?thesis by simp
qed

section \<open>Placeholder extraction\<close>

lemma set_set_update: "set (set_update ps ms) = set ps \<union> set ms"
  unfolding set_update_def by (induction ms arbitrary: ps) auto

lemma distinct_set_update: "distinct ps \<Longrightarrow> distinct (set_update ps ms)"
  unfolding set_update_def by (induction ms arbitrary: ps) auto

lemma distinct_extract_loop: "distinct ps \<Longrightarrow> distinct (extract_loop S ps)"
  by (induction S arbitrary: ps)
     (auto simp: distinct_set_update split: option.splits json.splits)

lemma set_extract_loop: "set (extract_loop S ps) = set ps \<union> (\<Union>st \<in> set S. value_tokens st)"
  by (induction S arbitrary: ps)
     (auto simp: set_set_update value_tokens_def split: option.splits json.splits)

text \<open>On a template the scan returns the tokens; whatever it returns stands in braces.\<close>

lemma findall_skip_literal:
  "CHR ''{'' \<notin> set s \<Longrightarrow> findall_placeholders (s @ r) = findall_placeholders r"
  by (induction s) auto

lemma findall_token:
  assumes "t \<noteq> []" "CHR ''}'' \<notin> set t"
  shows "findall_placeholders (''{'' @ t @ ''}'' @ r) = t # findall_placeholders r"
proof -
  have tw: "takeWhile (\<lambda>x. x \<noteq> CHR ''}'') (t @ CHR ''}'' # r) = t"
    using assms(2) by (auto simp: takeWhile_tail takeWhile_eq_all_conv)
  have dw: "dropWhile (\<lambda>x. x \<noteq> CHR ''}'') (t @ CHR ''}'' # r) = CHR ''}'' # r"
    using assms(2) by (auto simp: dropWhile_append3)
  show ?thesis using assms(1) tw dw by simp
qed

lemma findall_render:
  "list_all wf_segment segs \<Longrightarrow> findall_placeholders (render segs) = tokens_of segs"
proof (induction segs)
  case Nil
  show ?case by simp
next
  case (Cons seg segs)
  then show ?case
  proof (cases seg)
    case (Lit s)
    with Cons show ?thesis by (simp add: findall_skip_literal)
  next
    case (Tok t)
    with Cons findall_token [of t "render segs"] show ?thesis by simp
  qed
qed

lemma findall_sound:
  "t \<in> set (findall_placeholders v) \<Longrightarrow>
   \<exists>pre post. v = pre @ ''{'' @ t @ ''}'' @ post \<and> t \<noteq> [] \<and> CHR ''}'' \<notin> set t"
proof (induction v rule: findall_placeholders.induct)
  case 1
  then show ?case by simp
next
  case (2 c cs)
  let ?tok = "takeWhile (\<lambda>x. x \<noteq> CHR ''}'') cs"
  let ?rest = "dropWhile (\<lambda>x. x \<noteq> CHR ''}'') cs"
  show ?case
  proof (cases "c = CHR ''{'' \<and> ?tok \<noteq> [] \<and> ?rest \<noteq> []")
    case True
    then have hd: "hd ?rest = CHR ''}''" using hd_dropWhile [of "\<lambda>x. x \<noteq> CHR ''}''" cs] by simp
    with True have rest: "?rest = CHR ''}'' # tl ?rest" by (cases ?rest) simp_all
    have cs: "cs = ?tok @ CHR ''}'' # tl ?rest"
      using takeWhile_dropWhile_id [of "\<lambda>x. x \<noteq> CHR ''}''" cs] rest by metis
    from "2.prems" True have "t = ?tok \<or> t \<in> set (findall_placeholders (tl ?rest))"
      by (simp add: Let_def)
    then show ?thesis
    proof
      assume t: "t = ?tok"
      have "CHR ''}'' \<notin> set ?tok" by (metis (mono_tags, lifting) set_takeWhileD)
      moreover have "c # cs = [] @ ''{'' @ ?tok @ ''}'' @ tl ?rest" using True cs by simp
      ultimately show ?thesis using True t by blast
    next
      assume "t \<in> set (findall_placeholders (tl ?rest))"
      from "2.IH"(1) [OF _ refl refl _ this] True
      obtain pre post where "tl ?rest = pre @ ''{'' @ t @ ''}'' @ post" "t \<noteq> []" "CHR ''}'' \<notin> set t"
        by auto
      moreover from this(1) cs have "c # cs = (c # ?tok @ CHR ''}'' # pre) @ ''{'' @ t @ ''}'' @ post"
        by simp
      ultimately show ?thesis by blast
    qed
  next
    case False
    with "2.prems" have tin: "t \<in> set (findall_placeholders cs)"
      by (auto simp: Let_def split: if_splits)
    have "\<exists>pre post. cs = pre @ ''{'' @ t @ ''}'' @ post \<and> t \<noteq> [] \<and> CHR ''}'' \<notin> set t"
    proof (cases "c = CHR ''{''")
      case True
      with False have "\<not> (?tok \<noteq> [] \<and> ?rest \<noteq> [])" by simp
      from "2.IH"(2) [OF True refl refl this tin] show ?thesis .
    next
      case False
      from "2.IH"(3) [OF False tin] show ?thesis .
    qed
    then obtain pre post where "cs = pre @ ''{'' @ t @ ''}'' @ post" "t \<noteq> []" "CHR ''}'' \<notin> set t"
      by blast
    then have "c # cs = (c # pre) @ ''{'' @ t @ ''}'' @ post \<and> t \<noteq> [] \<and> CHR ''}'' \<notin> set t"
      by simp
    then show ?thesis by blast
  qed
qed

text \<open>
  C7: \<open>_extract_placeholders\<close> returns, without duplicates, the tokens of the string
  values of the steps. On a value written as a template these are exactly the tokens in
  braces; every token returned is a non-empty string standing between braces in the value;
  a value without an opening brace contributes nothing; and the value
  "Hello {name}, your code is {otp}" yields name and otp.
\<close>

theorem extract_placeholders_tokens:
  "distinct (extract_placeholders S) \<and>
   set (extract_placeholders S) = (\<Union>st \<in> set S. value_tokens st) \<and>
   (list_all wf_segment segs \<longrightarrow> findall_placeholders (render segs) = tokens_of segs) \<and>
   (t \<in> set (findall_placeholders v) \<longrightarrow>
      (\<exists>pre post. v = pre @ ''{'' @ t @ ''}'' @ post \<and> t \<noteq> [] \<and> CHR ''}'' \<notin> set t)) \<and>
   (CHR ''{'' \<notin> set v \<longrightarrow> findall_placeholders v = []) \<and>
   set (extract_placeholders [ex_fill sel ''Hello {name}, your code is {otp}''])
     = {''name'', ''otp''}"
proof (intro conjI impI)
  show "distinct (extract_placeholders S)"
    by (simp add: extract_placeholders_def distinct_extract_loop)
  show "set (extract_placeholders S) = (\<Union>st \<in> set S. value_tokens st)"
    by (simp add: extract_placeholders_def set_extract_loop)
  show "findall_placeholders (render segs) = tokens_of segs" if "list_all wf_segment segs"
    using that by (rule findall_render)
  show "\<exists>pre post. v = pre @ ''{'' @ t @ ''}'' @ post \<and> t \<noteq> [] \<and> CHR ''}'' \<notin> set t"
    if "t \<in> set (findall_placeholders v)"
    using that by (rule findall_sound)
  show "findall_placeholders v = []" if "CHR ''{'' \<notin> set v"
    using findall_skip_literal [OF that, of "[]"] by simp
  show "set (extract_placeholders [ex_fill sel ''Hello {name}, your code is {otp}''])
          = {''name'', ''otp''}"
    by (simp add: extract_placeholders_def set_set_update ex_fill_def)
qed

theorem extract_placeholders_tokens_witness:
  "extract_placeholders ex_fills = [''name'', ''otp''] \<and>
   distinct (extract_placeholders ex_fills) \<and>
   set (extract_placeholders ex_fills) = {''name'', ''otp''} \<and>
   render ex_segs = ''Hello {name}, your code is {otp}'' \<and>
   findall_placeholders (render ex_segs) = [''name'', ''otp''] \<and>
   (\<exists>pre post. ''Hello {name}, your code is {otp}'' = pre @ ''{'' @ ''otp'' @ ''}'' @ post) \<and>
   findall_placeholders ''no tokens here'' = []"
proof -
  have wf: "list_all wf_segment ex_segs" by (simp add: ex_segs_def)
  have mem: "''otp'' \<in> set (findall_placeholders ''Hello {name}, your code is {otp}'')"
    by simp
  have plain: "CHR ''{'' \<notin> set ''no tokens here''" by simp
  have run: "extract_placeholders ex_fills = [''name'', ''otp'']"
    by (simp add: extract_placeholders_def ex_fills_def ex_fill_def set_update_def)
  have rend: "render ex_segs = ''Hello {name}, your code is {otp}''"
    by (simp add: ex_segs_def)
  have toks: "tokens_of ex_segs = [''name'', ''otp'']" by (simp add: ex_segs_def)
  from extract_placeholders_tokens
         [of ex_fills ex_segs "''otp''" "''Hello {name}, your code is {otp}''" "''no tokens here''"]
       wf mem plain run rend toks
  show ?thesis by auto
qed

section \<open>Replay\<close>

lemma subscript_JObj: "subscript (JObj d) k = getitem d k"
  by (simp add: subscript_def)

lemma exec_fill:
  assumes "getitem d ''action'' = Inr (JStr ''fill'')" "getitem d ''selector'' = Inr sel"
    "getitem d ''value'' = Inr v" "hashable sel"
  shows "exec_step drv inputs i n (JObj d) s =
           call_driver drv (FillCall sel (case inputs sel of Some ov \<Rightarrow> ov | None \<Rightarrow> v))
             (emit (Log (StepLine (i + 1) n (JStr ''fill''))) s)"
  using assms by (simp add: exec_step_def effective_value_def subscript_JObj)

lemma trace_call_driver: "trace (snd (call_driver drv c s)) = trace s @ [Call c]"
  by (simp add: call_driver_def split: prod.splits option.splits)

text \<open>
  C4: on a fill step the driver is called with the override of the step's selector when
  the override map has one, the empty string included, and with the recorded value
  otherwise; so with the empty map the recorded value is used.
\<close>

theorem fill_value_override:
  assumes "getitem d ''action'' = Inr (JStr ''fill'')" "getitem d ''selector'' = Inr sel"
    "getitem d ''value'' = Inr v" "hashable sel"
  shows "trace (snd (exec_step drv inputs i n (JObj d) s)) =
           trace s @ [Log (StepLine (i + 1) n (JStr ''fill'')),
                      Call (FillCall sel (case inputs sel of Some ov \<Rightarrow> ov | None \<Rightarrow> v))] \<and>
         trace (snd (exec_step drv (inputs(sel \<mapsto> ov)) i n (JObj d) s)) =
           trace s @ [Log (StepLine (i + 1) n (JStr ''fill'')), Call (FillCall sel ov)] \<and>
         trace (snd (exec_step drv Map.empty i n (JObj d) s)) =
           trace s @ [Log (StepLine (i + 1) n (JStr ''fill'')), Call (FillCall sel v)]"
  using assms by (simp add: exec_fill trace_call_driver emit_def)

theorem fill_value_override_witness:
  "trace (snd (exec_step ex_driver [JStr ''#q'' \<mapsto> JStr ''override-value''] 1 3 (JObj ex_fill_dict)
                 (launched (JStr ''search'') 0))) =
     [Log (Running (JStr ''search'')), Launch, Log (StepLine 2 3 (JStr ''fill'')),
      Call (FillCall (JStr ''#q'') (JStr ''override-value''))] \<and>
   trace (snd (exec_step ex_driver [JStr ''#q'' \<mapsto> JStr []] 1 3 (JObj ex_fill_dict)
                 (launched (JStr ''search'') 0))) =
     [Log (Running (JStr ''search'')), Launch, Log (StepLine 2 3 (JStr ''fill'')),
      Call (FillCall (JStr ''#q'') (JStr []))] \<and>
   trace (snd (exec_step ex_driver Map.empty 1 3 (JObj ex_fill_dict)
                 (launched (JStr ''search'') 0))) =
     [Log (Running (JStr ''search'')), Launch, Log (StepLine 2 3 (JStr ''fill'')),
      Call (FillCall (JStr ''#q'') (JStr ''abc''))]"
proof -
  have h: "getitem ex_fill_dict ''action'' = Inr (JStr ''fill'')"
    "getitem ex_fill_dict ''selector'' = Inr (JStr ''#q'')"
    "getitem ex_fill_dict ''value'' = Inr (JStr ''abc'')"
    "hashable (JStr ''#q'')"
    by (simp_all add: getitem_def ex_fill_dict_def)
  from fill_value_override [OF h, of ex_driver Map.empty 1 3 "launched (JStr ''search'') 0"
         "JStr ''override-value''"]
       fill_value_override [OF h, of ex_driver Map.empty 1 3 "launched (JStr ''search'') 0"
         "JStr []"]
  show ?thesis by (simp add: launched_def)
qed

text \<open>The loop only adds to the trace, and never closes the browser.\<close>

lemma exec_step_trace:
  "\<exists>added. trace (snd (exec_step drv inputs i n st s)) = trace s @ added \<and> Close \<notin> set added"
  by (auto simp: exec_step_def emit_def Let_def trace_call_driver
           split: sum.splits)

lemma run_steps_trace:
  "\<exists>added. trace (snd (run_steps drv inputs i n sts s)) = trace s @ added \<and> Close \<notin> set added"
proof (induction sts arbitrary: i s)
  case Nil
  show ?case by simp
next
  case (Cons st sts)
  obtain err s' where ex: "exec_step drv inputs i n st s = (err, s')"
    by (cases "exec_step drv inputs i n st s")
  from exec_step_trace [of drv inputs i n st s] ex obtain a1 where
    a1: "trace s' = trace s @ a1" "Close \<notin> set a1" by auto
  show ?case
  proof (cases err)
    case (Some e)
    with ex a1 show ?thesis by simp
  next
    case None
    from Cons.IH [of "i + 1" s'] obtain a2 where
      a2: "trace (snd (run_steps drv inputs (i + 1) n sts s')) = trace s' @ a2" "Close \<notin> set a2"
      by blast
    have "trace (snd (run_steps drv inputs i n (st # sts) s)) = trace s @ (a1 @ a2)"
      using ex None a1 a2 by simp
    moreover have "Close \<notin> set (a1 @ a2)" using a1 a2 by simp
    ultimately show ?thesis by blast
  qed
qed

lemma run_steps_append:
  "run_steps drv inputs i n pre s = (None, s1) \<Longrightarrow>
   run_steps drv inputs i n (pre @ rest) s = run_steps drv inputs (i + length pre) n rest s1"
proof (induction pre arbitrary: i s)
  case Nil
  then show ?case by simp
next
  case (Cons st pre)
  obtain err s' where ex: "exec_step drv inputs i n st s = (err, s')"
    by (cases "exec_step drv inputs i n st s")
  with Cons.prems have none: "err = None" and rest: "run_steps drv inputs (i + 1) n pre s' = (None, s1)"
    by (auto split: option.splits)
  from Cons.IH [OF rest] ex none show ?case by simp
qed

lemma run_steps_fails_at:
  assumes "run_steps drv inputs i n pre s = (None, s1)"
    and "exec_step drv inputs (i + length pre) n st s1 = (Some e, s2)"
  shows "run_steps drv inputs i n (pre @ st # post) s = (Some e, s2)"
  using run_steps_append [OF assms(1), of "st # post"] assms(2) by simp

lemma run_recipe_failed:
  assumes "getitem recipe ''name'' = Inr nm" "getitem recipe ''steps'' = Inr (JArr xs)"
    and "run_steps drv inputs 0 (length xs) xs (launched nm p0) = (Some e, s2)"
  shows "run_recipe drv recipe inputs p0 = Inr (finish (ErrorLine e) s2)"
  using assms
  by (simp add: run_recipe_def try_body_def iterate_def launched_def finish_def emit_def)

lemma run_recipe_succeeded:
  assumes "getitem recipe ''name'' = Inr nm" "getitem recipe ''steps'' = Inr (JArr xs)"
    and "run_steps drv inputs 0 (length xs) xs (launched nm p0) = (None, s1)"
  shows "run_recipe drv recipe inputs p0 = Inr (finish Finished s1)"
  using assms
  by (simp add: run_recipe_def try_body_def iterate_def launched_def finish_def emit_def)

lemma try_body_trace:
  "\<exists>added. trace (snd (try_body drv inputs recipe s)) = trace s @ added \<and> Close \<notin> set added"
proof (cases "getitem recipe ''steps''")
  case (Inl e)
  then show ?thesis by (simp add: try_body_def)
next
  case (Inr sts)
  show ?thesis
  proof (cases "iterate sts")
    case (Inl e)
    with Inr show ?thesis by (simp add: try_body_def)
  next
    case (Inr xs) note it = this
    obtain err s' where r: "run_steps drv inputs 0 (length xs) xs s = (err, s')"
      by (cases "run_steps drv inputs 0 (length xs) xs s")
    from run_steps_trace [of drv inputs 0 "length xs" xs s] r obtain a where
      a: "trace s' = trace s @ a" "Close \<notin> set a" by auto
    show ?thesis
    proof (cases err)
      case None
      have "trace (snd (try_body drv inputs recipe s)) = trace s @ (a @ [Log Finished])"
        using \<open>getitem recipe ''steps'' = Inr sts\<close> it r None a
        by (simp add: try_body_def emit_def)
      moreover have "Close \<notin> set (a @ [Log Finished])" using a by simp
      ultimately show ?thesis by blast
    next
      case (Some e)
      have "trace (snd (try_body drv inputs recipe s)) = trace s @ a"
        using \<open>getitem recipe ''steps'' = Inr sts\<close> it r Some a
        by (simp add: try_body_def)
      with a show ?thesis by blast
    qed
  qed
qed

lemma run_recipe_closes_once:
  assumes "getitem recipe ''name'' = Inr nm"
  shows "\<exists>s body. run_recipe drv recipe inputs p0 = Inr s \<and>
           trace s = [Log (Running nm), Launch] @ body @ [Sleep 3, Close] \<and> Close \<notin> set body"
proof -
  let ?s0 = "\<lparr>page = p0, trace = [Log (Running nm), Launch]\<rparr>"
  obtain err s' where t: "try_body drv inputs recipe ?s0 = (err, s')"
    by (cases "try_body drv inputs recipe ?s0")
  from try_body_trace [of drv inputs recipe ?s0] t obtain a where
    a: "trace s' = [Log (Running nm), Launch] @ a" "Close \<notin> set a" by auto
  show ?thesis
  proof (cases err)
    case None
    have "run_recipe drv recipe inputs p0 = Inr (emit Close (emit (Sleep 3) s'))"
      using assms t None by (simp add: run_recipe_def)
    moreover have "trace (emit Close (emit (Sleep 3) s')) =
                   [Log (Running nm), Launch] @ a @ [Sleep 3, Close]"
      using a by (simp add: emit_def)
    ultimately show ?thesis using a(2) by blast
  next
    case (Some e)
    have "run_recipe drv recipe inputs p0 =
            Inr (emit Close (emit (Sleep 3) (emit (Log (ErrorLine e)) s')))"
      using assms t Some by (simp add: run_recipe_def)
    moreover have "trace (emit Close (emit (Sleep 3) (emit (Log (ErrorLine e)) s'))) =
                   [Log (Running nm), Launch] @ (a @ [Log (ErrorLine e)]) @ [Sleep 3, Close]"
      using a by (simp add: emit_def)
    moreover have "Close \<notin> set (a @ [Log (ErrorLine e)])" using a(2) by simp
    ultimately show ?thesis by blast
  qed
qed

text \<open>A driver call that fails makes its step raise.\<close>

lemma call_driver_fails:
  "fst (drv c (page s)) = Some msg \<Longrightarrow> fst (call_driver drv c s) = Some (DriverError msg)"
  by (cases "drv c (page s)") (auto simp: call_driver_def)

lemma exec_step_driver_fails:
  assumes "fst (drv c (page s)) = Some msg"
  shows "getitem d ''action'' = Inr (JStr ''navigate'') \<Longrightarrow> getitem d ''url'' = Inr url \<Longrightarrow>
           c = Goto url \<Longrightarrow> fst (exec_step drv inputs i n (JObj d) s) = Some (DriverError msg)"
    and "getitem d ''action'' = Inr (JStr ''click'') \<Longrightarrow> getitem d ''selector'' = Inr sel \<Longrightarrow>
           c = ClickCall sel \<Longrightarrow> fst (exec_step drv inputs i n (JObj d) s) = Some (DriverError msg)"
    and "getitem d ''action'' = Inr (JStr ''fill'') \<Longrightarrow> getitem d ''selector'' = Inr sel \<Longrightarrow>
           effective_value inputs (JObj d) = Inr v \<Longrightarrow>
           c = FillCall sel v \<Longrightarrow> fst (exec_step drv inputs i n (JObj d) s) = Some (DriverError msg)"
  using assms by (simp_all add: exec_step_def subscript_def emit_def call_driver_fails)

lemmas ex_replay_defs =
  ex_replay_steps_def ex_recipe_def ex_driver_def launched_def finish_def
  exec_step_def subscript_def getitem_def effective_value_def call_driver_def emit_def

text \<open>
  C5: a navigate, click or fill step whose driver call fails raises the driver's error.
  When a step raises, the run ends with the session as that step left it, followed by the
  report of the error, the sleep and the closing of the browser: no later step is
  executed. When no step raises the run ends the same way after the last step, with the
  success line in place of the report. In every run the browser is closed exactly once,
  as the last effect.
\<close>

theorem replay_failure_cleanup:
  assumes "getitem recipe ''name'' = Inr nm" "getitem recipe ''steps'' = Inr (JArr xs)"
  shows
    "(getitem d ''action'' = Inr (JStr ''navigate'') \<and> getitem d ''url'' = Inr url \<and>
      fst (drv (Goto url) (page s)) = Some msg \<longrightarrow>
        fst (exec_step drv inputs i n (JObj d) s) = Some (DriverError msg)) \<and>
     (getitem d ''action'' = Inr (JStr ''click'') \<and> getitem d ''selector'' = Inr sel \<and>
      fst (drv (ClickCall sel) (page s)) = Some msg \<longrightarrow>
        fst (exec_step drv inputs i n (JObj d) s) = Some (DriverError msg)) \<and>
     (getitem d ''action'' = Inr (JStr ''fill'') \<and> getitem d ''selector'' = Inr sel \<and>
      effective_value inputs (JObj d) = Inr v \<and>
      fst (drv (FillCall sel v) (page s)) = Some msg \<longrightarrow>
        fst (exec_step drv inputs i n (JObj d) s) = Some (DriverError msg)) \<and>
     (xs = pre @ st # post \<and>
      run_steps drv inputs 0 (length xs) pre (launched nm p0) = (None, s1) \<and>
      exec_step drv inputs (length pre) (length xs) st s1 = (Some e, s2) \<longrightarrow>
        run_recipe drv recipe inputs p0 = Inr (finish (ErrorLine e) s2)) \<and>
     (run_steps drv inputs 0 (length xs) xs (launched nm p0) = (None, s1) \<longrightarrow>
        run_recipe drv recipe inputs p0 = Inr (finish Finished s1)) \<and>
     (\<exists>s. run_recipe drv recipe inputs p0 = Inr s \<and>
           count_list (trace s) Close = 1 \<and> last (trace s) = Close)"
proof (intro conjI impI)
  assume "getitem d ''action'' = Inr (JStr ''navigate'') \<and> getitem d ''url'' = Inr url \<and>
      fst (drv (Goto url) (page s)) = Some msg"
  then show "fst (exec_step drv inputs i n (JObj d) s) = Some (DriverError msg)"
    using exec_step_driver_fails(1) [of drv "Goto url" s msg d url inputs i n] by blast
next
  assume "getitem d ''action'' = Inr (JStr ''click'') \<and> getitem d ''selector'' = Inr sel \<and>
      fst (drv (ClickCall sel) (page s)) = Some msg"
  then show "fst (exec_step drv inputs i n (JObj d) s) = Some (DriverError msg)"
    using exec_step_driver_fails(2) [of drv "ClickCall sel" s msg d sel inputs i n] by blast
next
  assume "getitem d ''action'' = Inr (JStr ''fill'') \<and> getitem d ''selector'' = Inr sel \<and>
      effective_value inputs (JObj d) = Inr v \<and>
      fst (drv (FillCall sel v) (page s)) = Some msg"
  then show "fst (exec_step drv inputs i n (JObj d) s) = Some (DriverError msg)"
    using exec_step_driver_fails(3) [of drv "FillCall sel v" s msg d sel inputs v i n] by blast
next
  assume a: "xs = pre @ st # post \<and>
      run_steps drv inputs 0 (length xs) pre (launched nm p0) = (None, s1) \<and>
      exec_step drv inputs (length pre) (length xs) st s1 = (Some e, s2)"
  then have xs: "xs = pre @ st # post"
    and r: "run_steps drv inputs 0 (length xs) pre (launched nm p0) = (None, s1)"
    and x0: "exec_step drv inputs (length pre) (length xs) st s1 = (Some e, s2)"
    by blast+
  from x0 have x: "exec_step drv inputs (0 + length pre) (length xs) st s1 = (Some e, s2)"
    by simp
  have "run_steps drv inputs 0 (length xs) (pre @ st # post) (launched nm p0) = (Some e, s2)"
    by (rule run_steps_fails_at [OF r x])
  then have "run_steps drv inputs 0 (length xs) xs (launched nm p0) = (Some e, s2)"
    using xs by simp
  from run_recipe_failed [OF assms this]
  show "run_recipe drv recipe inputs p0 = Inr (finish (ErrorLine e) s2)" .
next
  assume "run_steps drv inputs 0 (length xs) xs (launched nm p0) = (None, s1)"
  from run_recipe_succeeded [OF assms this]
  show "run_recipe drv recipe inputs p0 = Inr (finish Finished s1)" .
next
  from run_recipe_closes_once [OF assms(1), of drv inputs p0] obtain s body where
    s: "run_recipe drv recipe inputs p0 = Inr s"
       "trace s = [Log (Running nm), Launch] @ body @ [Sleep 3, Close]" "Close \<notin> set body"
    by blast
  have "count_list body Close = 0" using s(3) by (simp add: count_list_0_iff)
  then have "count_list (trace s) Close = 1" using s(2) by simp
  moreover have "last (trace s) = Close" using s(2) by simp
  ultimately show "\<exists>s. run_recipe drv recipe inputs p0 = Inr s \<and>
           count_list (trace s) Close = 1 \<and> last (trace s) = Close"
    using s(1) by blast
qed

theorem replay_failure_cleanup_witness:
  "fst (exec_step ex_offline Map.empty 0 1 (JObj ex_nav_dict) (launched (JStr ''search'') 0))
     = Some (DriverError ''offline'') \<and>
   fst (exec_step ex_driver Map.empty 0 1 (JObj ex_click_dict) (launched (JStr ''search'') 0))
     = Some (DriverError ''no element matches #submit'') \<and>
   fst (exec_step ex_offline Map.empty 0 1 (JObj ex_fill_dict) (launched (JStr ''search'') 0))
     = Some (DriverError ''offline'') \<and>
   run_recipe ex_driver (ex_recipe ex_replay_steps) Map.empty 0
     = Inr \<lparr>page = 3, trace = ex_failed_trace\<rparr> \<and>
   count_list ex_failed_trace Close = 1 \<and>
   run_recipe ex_driver (ex_recipe (take 2 ex_replay_steps)) Map.empty 0
     = Inr \<lparr>page = 2, trace = ex_finished_trace\<rparr> \<and>
   count_list ex_finished_trace Close = 1"
proof -
  let ?s0 = "launched (JStr ''search'') (0 :: nat)"
  let ?s1 = "\<lparr>page = 2 :: nat, trace =
     [Log (Running (JStr ''search'')), Launch,
      Log (StepLine 1 4 (JStr ''navigate'')), Call (Goto (JStr ''https://example.test'')),
      Log (StepLine 2 4 (JStr ''fill'')), Call (FillCall (JStr ''#q'') (JStr ''abc''))]\<rparr>"
  let ?s2 = "\<lparr>page = 3 :: nat, trace =
     [Log (Running (JStr ''search'')), Launch,
      Log (StepLine 1 4 (JStr ''navigate'')), Call (Goto (JStr ''https://example.test'')),
      Log (StepLine 2 4 (JStr ''fill'')), Call (FillCall (JStr ''#q'') (JStr ''abc'')),
      Log (StepLine 3 4 (JStr ''click'')), Call (ClickCall (JStr ''#submit''))]\<rparr>"
  let ?t1 = "\<lparr>page = 2 :: nat, trace =
     [Log (Running (JStr ''search'')), Launch,
      Log (StepLine 1 2 (JStr ''navigate'')), Call (Goto (JStr ''https://example.test'')),
      Log (StepLine 2 2 (JStr ''fill'')), Call (FillCall (JStr ''#q'') (JStr ''abc''))]\<rparr>"
  have nm: "getitem (ex_recipe sts) ''name'' = Inr (JStr ''search'')" for sts
    by (simp add: ex_recipe_def getitem_def)
  have sts: "getitem (ex_recipe sts) ''steps'' = Inr (JArr sts)" for sts
    by (simp add: ex_recipe_def getitem_def)
  have nav: "getitem ex_nav_dict ''action'' = Inr (JStr ''navigate'')"
    "getitem ex_nav_dict ''url'' = Inr (JStr ''https://example.test'')"
    "fst (ex_offline (Goto (JStr ''https://example.test'')) (page ?s0)) = Some ''offline''"
    by (simp_all add: ex_nav_dict_def getitem_def ex_offline_def)
  have click: "getitem ex_click_dict ''action'' = Inr (JStr ''click'')"
    "getitem ex_click_dict ''selector'' = Inr (JStr ''#submit'')"
    "fst (ex_driver (ClickCall (JStr ''#submit'')) (page ?s0)) = Some ''no element matches #submit''"
    by (simp_all add: ex_click_dict_def getitem_def ex_driver_def)
  have fill: "getitem ex_fill_dict ''action'' = Inr (JStr ''fill'')"
    "getitem ex_fill_dict ''selector'' = Inr (JStr ''#q'')"
    "effective_value Map.empty (JObj ex_fill_dict) = Inr (JStr ''abc'')"
    "fst (ex_offline (FillCall (JStr ''#q'') (JStr ''abc'')) (page ?s0)) = Some ''offline''"
    by (simp_all add: ex_fill_dict_def getitem_def ex_offline_def effective_value_def subscript_def)
  have split: "ex_replay_steps = take 2 ex_replay_steps @ (ex_replay_steps ! 2) # drop 3 ex_replay_steps"
    by (simp add: ex_replay_steps_def)
  have len: "length ex_replay_steps = 4" "length (take 2 ex_replay_steps) = 2"
    by (simp_all add: ex_replay_steps_def)
  have pre: "run_steps ex_driver Map.empty 0 4 (take 2 ex_replay_steps) ?s0 = (None, ?s1)"
    by (simp add: ex_replay_defs)
  have fail: "exec_step ex_driver Map.empty 2 4 (ex_replay_steps ! 2) ?s1
                = (Some (DriverError ''no element matches #submit''), ?s2)"
    by (simp add: ex_replay_defs)
  have ok: "run_steps ex_driver Map.empty 0 2 (take 2 ex_replay_steps) ?s0 = (None, ?t1)"
    by (simp add: ex_replay_defs)
  note t = replay_failure_cleanup [OF nm sts]
  from t [where d = ex_nav_dict and url = "JStr ''https://example.test''" and drv = ex_offline
            and s = ?s0 and msg = "''offline''" and inputs = Map.empty and i = 0 and n = 1]
       nav
  have a: "fst (exec_step ex_offline Map.empty 0 1 (JObj ex_nav_dict) ?s0)
             = Some (DriverError ''offline'')"
    by blast
  from t [where d = ex_click_dict and sel = "JStr ''#submit''" and drv = ex_driver
            and s = ?s0 and msg = "''no element matches #submit''" and inputs = Map.empty
            and i = 0 and n = 1]
       click
  have b: "fst (exec_step ex_driver Map.empty 0 1 (JObj ex_click_dict) ?s0)
             = Some (DriverError ''no element matches #submit'')"
    by blast
  from t [where d = ex_fill_dict and sel = "JStr ''#q''" and v = "JStr ''abc''"
            and drv = ex_offline and s = ?s0 and msg = "''offline''" and inputs = Map.empty
            and i = 0 and n = 1]
       fill
  have c: "fst (exec_step ex_offline Map.empty 0 1 (JObj ex_fill_dict) ?s0)
             = Some (DriverError ''offline'')"
    by blast
  from t [where xs = ex_replay_steps and pre = "take 2 ex_replay_steps"
            and st = "ex_replay_steps ! 2" and post = "drop 3 ex_replay_steps"
            and drv = ex_driver and inputs = Map.empty and ?p0.0 = 0 and ?s1.0 = ?s1
            and e = "DriverError ''no element matches #submit''" and ?s2.0 = ?s2]
       split len pre fail
  have 1: "run_recipe ex_driver (ex_recipe ex_replay_steps) Map.empty 0
     = Inr \<lparr>page = 3, trace = ex_failed_trace\<rparr>"
    by (simp add: finish_def ex_failed_trace_def)
  from t [where xs = "take 2 ex_replay_steps" and drv = ex_driver and inputs = Map.empty
            and ?p0.0 = 0 and ?s1.0 = ?t1]
       len ok
  have 2: "run_recipe ex_driver (ex_recipe (take 2 ex_replay_steps)) Map.empty 0
     = Inr \<lparr>page = 2, trace = ex_finished_trace\<rparr>"
    by (simp add: finish_def ex_finished_trace_def)
  have 3: "count_list ex_failed_trace Close = 1" "count_list ex_finished_trace Close = 1"
    by (simp_all add: ex_failed_trace_def ex_finished_trace_def)
  from a b c 1 2 3 show ?thesis by simp
qed




section \<open>Selector synthesis\<close>

text \<open>
  C8: for an element with a non-empty id that is unique in the document, the selector is
  the id form, whatever its name attribute is, a unique name included; it is never the
  name form.
\<close>

theorem id_selector_first:
  assumes "el_id e \<noteq> []" "qsa_length b (''#'' @ css_escape b (el_id e)) = Some 1"
  shows "getUniqueSelector b (Some e) = Inr (Some (''#'' @ css_escape b (el_id e))) \<and>
         getUniqueSelector b (Some e) \<noteq> Inr (Some (attr_selector ''name'' (el_name e)))"
  using assms
  by (cases e) (simp add: getUniqueSelector_def if_unique_def count_matches_def attr_selector_def)

theorem id_selector_first_witness:
  "el_id ex_input = ''q'' \<and> el_name ex_input = Some ''query'' \<and>
   qsa_length ex_document ''#q'' = Some 1 \<and>
   qsa_length ex_document (attr_selector ''name'' (Some ''query'')) = Some 1 \<and>
   getUniqueSelector ex_document (Some ex_input) = Inr (Some ''#q'') \<and>
   getUniqueSelector ex_document (Some ex_input) \<noteq> Inr (Some (attr_selector ''name'' (Some ''query'')))"
proof -
  have h: "el_id ex_input \<noteq> []"
    "qsa_length ex_document (''#'' @ css_escape ex_document (el_id ex_input)) = Some 1"
    by (simp_all add: ex_input_def ex_document_def)
  from id_selector_first [OF h] show ?thesis
    by (simp add: ex_input_def ex_document_def attr_selector_def)
qed

section \<open>The store\<close>




end
